theory Spec2Isabelle
  imports Main
begin

section \<open>Python values, exceptions and the Solr collaborator\<close>

text \<open>
  The development embeds \<^verbatim>\<open>pythonsolr/pythonsolr.py\<close>: the results paginator
  \<^verbatim>\<open>SolrResultsPaginator\<close> and the batching writer \<^verbatim>\<open>SolrBatchAdder\<close>.
  Both talk to a \<^verbatim>\<open>solr\<close> object (any object with \<^verbatim>\<open>search\<close>, \<^verbatim>\<open>add\<close> and
  \<^verbatim>\<open>commit\<close>). Documents are opaque to this code, so they are a type parameter \<open>'d\<close>.

  Exceptions are values. The bare \<^verbatim>\<open>except:\<close> clauses of the source catch every
  constructor; \<^verbatim>\<open>except socket.timeout\<close> catches \<open>SocketTimeout\<close> only and
  \<^verbatim>\<open>except StopIteration\<close> catches \<open>StopIteration\<close> only.
\<close>

datatype exn =
    StopIteration
  | AssertionError
  | AttributeError
  | SocketTimeout
  | SolrError string
  | OtherError string

text \<open>Keyword arguments of \<^verbatim>\<open>search\<close>: a dict from names to values.\<close>

datatype pyval = PInt int | PStr string

type_synonym params = "string \<rightharpoonup> pyval"

text \<open>\<^verbatim>\<open>pysolr.Results\<close>, as far as the paginator reads it: \<^verbatim>\<open>docs\<close> and \<^verbatim>\<open>hits\<close>.\<close>

record 'd Results =
  docs :: "'d list"
  hits :: int

text \<open>
  Every call that reaches the collaborator is appended to a log. The collaborator itself
  is deterministic but otherwise arbitrary: what a call answers (a value, or an
  exception) is a function of the calls made before it and of the call's arguments.
  \<open>Add ds c\<close> is \<^verbatim>\<open>solr.add(ds, commit=c)\<close>: the commit of a successful batched
  add is requested through this flag and performed by the collaborator.
\<close>

datatype 'd call =
    Search string params
  | Add "'d list" bool
  | Commit

record 'd solr_client =
  solr_search :: "'d call list \<Rightarrow> string \<Rightarrow> params \<Rightarrow> exn + 'd Results"
  solr_add :: "'d call list \<Rightarrow> 'd list \<Rightarrow> bool \<Rightarrow> exn option"
  solr_commit :: "'d call list \<Rightarrow> exn option"

section \<open>SolrBatchAdder\<close>

record 'd SolrBatchAdder =
  solr :: "'d solr_client"
  batch :: "'d list"
  batch_len :: int
  batch_size :: int
  auto_commit :: bool

definition SolrBatchAdder_init :: "'d solr_client \<Rightarrow> int \<Rightarrow> bool \<Rightarrow> 'd SolrBatchAdder" where
  "SolrBatchAdder_init s bsize ac =
     \<lparr>solr = s, batch = [], batch_len = 0, batch_size = bsize, auto_commit = ac\<rparr>"

text \<open>
  \<^verbatim>\<open>commit\<close>: one commit request; a \<^verbatim>\<open>socket.timeout\<close> is logged and ignored, any
  other exception leaves the method.
\<close>

definition commit :: "'d call list \<Rightarrow> 'd SolrBatchAdder \<Rightarrow> 'd call list \<times> exn option" where
  "commit log b =
     (case solr_commit (solr b) log of
        None \<Rightarrow> (log @ [Commit], None)
      | Some e \<Rightarrow> (if e = SocketTimeout then (log @ [Commit], None)
                  else (log @ [Commit], Some e)))"

text \<open>
  The one-by-one loop of \<^verbatim>\<open>flush\<close>: \<^verbatim>\<open>solr.add([item], commit=False)\<close> for each item,
  inside its own \<^verbatim>\<open>try\<close> with a bare \<^verbatim>\<open>except\<close> that only logs.
\<close>

fun one_by_one :: "'d solr_client \<Rightarrow> 'd call list \<Rightarrow> 'd list \<Rightarrow> 'd call list" where
  "one_by_one s log [] = log"
| "one_by_one s log (item # items) =
     (case solr_add s log [item] False of
        None \<Rightarrow> one_by_one s (log @ [Add [item] False]) items
      | Some e \<Rightarrow> one_by_one s (log @ [Add [item] False]) items)"

text \<open>
  \<^verbatim>\<open>flush\<close> returns the log, the writer and the exception that left the method, if any.
  The two assignments that empty the batch are the last statements of the method: an
  exception leaving \<^verbatim>\<open>self.commit()\<close> skips them.
\<close>

definition flush ::
  "'d call list \<Rightarrow> 'd SolrBatchAdder \<Rightarrow> 'd call list \<times> 'd SolrBatchAdder \<times> exn option" where
  "flush log b =
     (let ac = auto_commit b;
          log1 = log @ [Add (batch b) ac]
      in case solr_add (solr b) log (batch b) ac of
           None \<Rightarrow> (log1, b\<lparr>batch := [], batch_len := 0\<rparr>, None)
         | Some e \<Rightarrow>
             (let log2 = one_by_one (solr b) log1 (batch b)
              in if ac then
                   (case commit log2 b of
                      (log3, None) \<Rightarrow> (log3, b\<lparr>batch := [], batch_len := 0\<rparr>, None)
                    | (log3, Some e') \<Rightarrow> (log3, b, Some e'))
                 else (log2, b\<lparr>batch := [], batch_len := 0\<rparr>, None)))"

definition add_to_batch :: "'d SolrBatchAdder \<Rightarrow> 'd \<Rightarrow> 'd SolrBatchAdder" where
  "add_to_batch b doc = b\<lparr>batch := batch b @ [doc], batch_len := batch_len b + 1\<rparr>"

definition append_commit ::
  "'d call list \<Rightarrow> 'd SolrBatchAdder \<Rightarrow> 'd \<Rightarrow> 'd call list \<times> 'd SolrBatchAdder \<times> exn option" where
  "append_commit log b doc =
     (if batch_len b = batch_size b then
        (case flush log b of
           (log1, b1, None) \<Rightarrow> (log1, add_to_batch b1 doc, None)
         | (log1, b1, Some e) \<Rightarrow> (log1, b1, Some e))
      else (log, add_to_batch b doc, None))"

definition add_one ::
  "'d call list \<Rightarrow> 'd SolrBatchAdder \<Rightarrow> 'd \<Rightarrow> 'd call list \<times> 'd SolrBatchAdder \<times> exn option" where
  "add_one log b doc = append_commit log b doc"

text \<open>
  \<^verbatim>\<open>add_multi\<close> takes the documents as a list, for which its assertion (the argument
  has \<^verbatim>\<open>__iter__\<close>) holds; the loop stops at the first call that raises.
\<close>

fun add_multi ::
  "'d call list \<Rightarrow> 'd SolrBatchAdder \<Rightarrow> 'd list \<Rightarrow> 'd call list \<times> 'd SolrBatchAdder \<times> exn option" where
  "add_multi log b [] = (log, b, None)"
| "add_multi log b (doc # ds) =
     (case append_commit log b doc of
        (log1, b1, None) \<Rightarrow> add_multi log1 b1 ds
      | (log1, b1, Some e) \<Rightarrow> (log1, b1, Some e))"

text \<open>
  The context manager \<^verbatim>\<open>solr_batch_adder\<close>: the body of the \<^verbatim>\<open>with\<close> statement is a
  function of the log and the writer; \<^verbatim>\<open>finally\<close> flushes on every exit of the body.
  An exception of the body is raised again after the flush, unless the flush itself
  raises.
\<close>

definition solr_batch_adder ::
  "'d solr_client \<Rightarrow> int \<Rightarrow> bool \<Rightarrow>
   ('d call list \<Rightarrow> 'd SolrBatchAdder \<Rightarrow> 'd call list \<times> 'd SolrBatchAdder \<times> exn option) \<Rightarrow>
   'd call list \<Rightarrow> 'd call list \<times> 'd SolrBatchAdder \<times> exn option" where
  "solr_batch_adder s bsize ac body log =
     (let batcher = SolrBatchAdder_init s bsize ac
      in case body log batcher of
           (log1, b1, r) \<Rightarrow>
             (case flush log1 b1 of
                (log2, b2, None) \<Rightarrow> (log2, b2, r)
              | (log2, b2, Some e) \<Rightarrow> (log2, b2, Some e)))"

text \<open>Projections of a method's result.\<close>

definition calls_of :: "'c \<times> 'b \<times> 'r \<Rightarrow> 'c" where
  "calls_of t = fst t"

definition state_of :: "'c \<times> 'b \<times> 'r \<Rightarrow> 'b" where
  "state_of t = fst (snd t)"

definition outcome_of :: "'c \<times> 'b \<times> 'r \<Rightarrow> 'r" where
  "outcome_of t = snd (snd t)"

section \<open>SolrResultsPaginator\<close>

text \<open>
  The attributes \<^verbatim>\<open>page\<close>, \<^verbatim>\<open>item_iter\<close> and \<^verbatim>\<open>cursor\<close> do not exist before the
  first assignment: they are optional, and reading an absent one raises
  \<open>AttributeError\<close>. \<^verbatim>\<open>item_iter\<close> is a generator over \<^verbatim>\<open>page.docs\<close>: the list
  of the items it has not yielded yet. The field \<open>psolr\<close> is the attribute \<^verbatim>\<open>solr\<close>
  of the paginator (the writer's record has the field \<open>solr\<close>); \<^verbatim>\<open>max_index\<close> is
  \<open>None\<close> or an integer, as in the source.
\<close>

record 'd SolrResultsPaginator =
  psolr :: "'d solr_client"
  query :: string
  default_params :: params
  initialized :: bool
  exhausted :: bool
  index :: int
  max_index :: "int option"
  page :: "'d Results option"
  item_iter :: "'d list option"
  cursor :: "'d option"

definition SolrResultsPaginator_init ::
  "'d solr_client \<Rightarrow> string \<Rightarrow> params \<Rightarrow> int option \<Rightarrow> 'd SolrResultsPaginator" where
  "SolrResultsPaginator_init s q dparams mx =
     \<lparr>psolr = s, query = q, default_params = dparams, initialized = False,
      exhausted = False, index = 0, max_index = mx, page = None, item_iter = None,
      cursor = None\<rparr>"

text \<open>
  \<^verbatim>\<open>move_to_next_page\<close>: a copy of the default parameters with \<^verbatim>\<open>start\<close> overwritten
  by the index, one search, and on success the new page and a new generator over it.
  When the search raises, neither attribute is assigned.
\<close>

definition move_to_next_page ::
  "'d call list \<Rightarrow> 'd SolrResultsPaginator \<Rightarrow>
   'd call list \<times> 'd SolrResultsPaginator \<times> (exn + unit)" where
  "move_to_next_page log p =
     (let query_params = (default_params p)(''start'' \<mapsto> PInt (index p))
      in case solr_search (psolr p) log (query p) query_params of
           Inl e \<Rightarrow> (log @ [Search (query p) query_params], p, Inl e)
         | Inr pg \<Rightarrow>
             (log @ [Search (query p) query_params],
              p\<lparr>page := Some pg, item_iter := Some (docs pg)\<rparr>, Inr ()))"

definition init_if_needed ::
  "'d call list \<Rightarrow> 'd SolrResultsPaginator \<Rightarrow>
   'd call list \<times> 'd SolrResultsPaginator \<times> (exn + unit)" where
  "init_if_needed log p =
     (if \<not> initialized p then
        (case move_to_next_page log p of
           (log1, p1, Inl e) \<Rightarrow> (log1, p1, Inl e)
         | (log1, p1, Inr u) \<Rightarrow> (log1, p1\<lparr>initialized := True\<rparr>, Inr ()))
      else (log, p, Inr ()))"

definition check_max_index :: "'d SolrResultsPaginator \<Rightarrow> exn + unit" where
  "check_max_index p =
     (case max_index p of
        None \<Rightarrow> Inr ()
      | Some m \<Rightarrow> (if index p > m then Inl StopIteration else Inr ()))"

text \<open>
  \<^verbatim>\<open>__iter__\<close> returns an object reference. Objects live in a store (a list, a
  reference is a position in it); a constructor call appends the new object.
\<close>

definition iter_method ::
  "'d SolrResultsPaginator list \<Rightarrow> nat \<Rightarrow> 'd SolrResultsPaginator list \<times> nat" where
  "iter_method store self =
     (if exhausted (store ! self) then
        (store @ [SolrResultsPaginator_init (psolr (store ! self)) (query (store ! self))
                    (default_params (store ! self)) None],
         length store)
      else (store, self))"

definition len_method ::
  "'d call list \<Rightarrow> 'd SolrResultsPaginator \<Rightarrow>
   'd call list \<times> 'd SolrResultsPaginator \<times> (exn + int)" where
  "len_method log p =
     (case init_if_needed log p of
        (log1, p1, Inl e) \<Rightarrow> (log1, p1, Inl e)
      | (log1, p1, Inr u) \<Rightarrow>
          (case page p1 of
             None \<Rightarrow> (log1, p1, Inl AttributeError)
           | Some pg \<Rightarrow> (log1, p1, Inr (hits pg))))"

text \<open>
  \<^verbatim>\<open>_next\<close>. The inner \<^verbatim>\<open>try\<close> holds the fetch and the assertion that the new page is
  not empty; its bare \<^verbatim>\<open>except\<close> turns whatever either raises into \<open>StopIteration\<close>
  after setting \<^verbatim>\<open>exhausted\<close>. The recursive call stands outside that \<^verbatim>\<open>try\<close>.
\<close>

function next_private ::
  "'d call list \<Rightarrow> 'd SolrResultsPaginator \<Rightarrow>
   'd call list \<times> 'd SolrResultsPaginator \<times> (exn + 'd)" where
  "next_private log p =
     (case item_iter p of
        None \<Rightarrow> (log, p, Inl AttributeError)
      | Some (x # xs) \<Rightarrow> (log, p\<lparr>item_iter := Some xs, cursor := Some x\<rparr>, Inr x)
      | Some [] \<Rightarrow>
          (case move_to_next_page log p of
             (log1, p1, Inl e) \<Rightarrow> (log1, p1\<lparr>exhausted := True\<rparr>, Inl StopIteration)
           | (log1, p1, Inr u) \<Rightarrow>
               (case page p1 of
                  None \<Rightarrow> (log1, p1\<lparr>exhausted := True\<rparr>, Inl StopIteration)
                | Some pg \<Rightarrow>
                    (if length (docs pg) \<noteq> 0 then
                       (case next_private log1 p1 of
                          (log2, p2, Inl e) \<Rightarrow> (log2, p2, Inl e)
                        | (log2, p2, Inr c) \<Rightarrow> (log2, p2\<lparr>cursor := Some c\<rparr>, Inr c))
                     else (log1, p1\<lparr>exhausted := True\<rparr>, Inl StopIteration)))))"
  by pat_completeness auto
termination
proof (relation "measure (\<lambda>(log, p). if item_iter p = Some [] then 1 else 0)")
  show "wf (measure (\<lambda>(log :: 'd call list, p :: 'd SolrResultsPaginator).
              if item_iter p = Some [] then 1 else 0))"
    by simp
next
  fix log :: "'d call list" and p :: "'d SolrResultsPaginator"
    and x2 x y xa ya x2a x2b
  assume a: "item_iter p = Some x2" "x2 = []"
    "(x, y) = move_to_next_page log p" "(xa, ya) = y" "ya = Inr x2a"
    "page xa = Some x2b" "length (docs x2b) \<noteq> 0"
  have "move_to_next_page log p = (x, xa, Inr x2a)"
    using a by simp
  then have "item_iter xa \<noteq> Some []"
    using a(6,7) by (auto simp: move_to_next_page_def Let_def split: sum.splits)
  then show "((x, xa), (log, p)) \<in> measure (\<lambda>(log, p). if item_iter p = Some [] then 1 else 0)"
    using a(1,2) by simp
qed

declare next_private.simps [simp del]

text \<open>\<^verbatim>\<open>next\<close>: the ceiling check, the first fetch if none was made, one step, the count.\<close>

definition next_method ::
  "'d call list \<Rightarrow> 'd SolrResultsPaginator \<Rightarrow>
   'd call list \<times> 'd SolrResultsPaginator \<times> (exn + 'd)" where
  "next_method log p =
     (case check_max_index p of
        Inl e \<Rightarrow> (log, p, Inl e)
      | Inr u \<Rightarrow>
          (case init_if_needed log p of
             (log1, p1, Inl e) \<Rightarrow> (log1, p1, Inl e)
           | (log1, p1, Inr u1) \<Rightarrow>
               (case next_private log1 p1 of
                  (log2, p2, Inl e) \<Rightarrow> (log2, p2, Inl e)
                | (log2, p2, Inr c) \<Rightarrow>
                    (case cursor (p2\<lparr>index := index p2 + 1\<rparr>) of
                       None \<Rightarrow> (log2, p2\<lparr>index := index p2 + 1\<rparr>, Inl AttributeError)
                     | Some d \<Rightarrow> (log2, p2\<lparr>index := index p2 + 1\<rparr>, Inr d)))))"

section \<open>Callers and collaborators used in the statements\<close>

text \<open>A caller that calls \<^verbatim>\<open>add_one\<close> for each document in turn, until one call raises.\<close>

fun add_ones ::
  "'d call list \<Rightarrow> 'd SolrBatchAdder \<Rightarrow> 'd list \<Rightarrow> 'd call list \<times> 'd SolrBatchAdder \<times> exn option" where
  "add_ones log b [] = (log, b, None)"
| "add_ones log b (doc # ds) =
     (case add_one log b doc of
        (log1, b1, None) \<Rightarrow> add_ones log1 b1 ds
      | (log1, b1, Some e) \<Rightarrow> (log1, b1, Some e))"

text \<open>A write collaborator that accepts every add.\<close>

definition accepts_adds :: "'d solr_client \<Rightarrow> bool" where
  "accepts_adds s = (\<forall>h ds c. solr_add s h ds c = None)"

text \<open>
  A collaborator whose add always answers \<open>a\<close> and whose commit always answers \<open>c\<close>
  (\<open>None\<close>: success; \<open>Some e\<close>: raises \<open>e\<close>); its searches find nothing.
\<close>

definition write_client :: "exn option \<Rightarrow> exn option \<Rightarrow> 'd solr_client" where
  "write_client a c =
     \<lparr>solr_search = (\<lambda>h q ps. Inr \<lparr>docs = [], hits = 0\<rparr>),
      solr_add = (\<lambda>h ds cm. a),
      solr_commit = (\<lambda>h. c)\<rparr>"

text \<open>
  An unchanging index: every search is answered with the window of the index that
  \<^verbatim>\<open>start\<close> and \<^verbatim>\<open>rows\<close> select (ten rows when none is given) and with the size of
  the index as the number of hits, whatever was called before.
\<close>

definition start_of :: "params \<Rightarrow> nat" where
  "start_of ps = (case ps ''start'' of Some (PInt k) \<Rightarrow> nat k | Some (PStr v) \<Rightarrow> 0 | None \<Rightarrow> 0)"

definition rows_of :: "params \<Rightarrow> nat" where
  "rows_of ps = (case ps ''rows'' of Some (PInt k) \<Rightarrow> nat k | Some (PStr v) \<Rightarrow> 10 | None \<Rightarrow> 10)"

definition window :: "'d list \<Rightarrow> params \<Rightarrow> 'd Results" where
  "window ds ps = \<lparr>docs = take (rows_of ps) (drop (start_of ps) ds), hits = int (length ds)\<rparr>"

definition index_client :: "'d list \<Rightarrow> 'd solr_client" where
  "index_client ds =
     \<lparr>solr_search = (\<lambda>h q ps. Inr (window ds ps)),
      solr_add = (\<lambda>h xs cm. None),
      solr_commit = (\<lambda>h. None)\<rparr>"

text \<open>The same index behind a server that answers the first call only and then raises.\<close>

definition flaky_client :: "'d list \<Rightarrow> exn \<Rightarrow> 'd solr_client" where
  "flaky_client ds e =
     \<lparr>solr_search = (\<lambda>h q ps. if h = [] then Inr (window ds ps) else Inl e),
      solr_add = (\<lambda>h xs cm. None),
      solr_commit = (\<lambda>h. None)\<rparr>"

text \<open>A search collaborator that never raises, and one whose answers ignore the past.\<close>

definition search_never_raises :: "'d solr_client \<Rightarrow> bool" where
  "search_never_raises s = (\<forall>h q ps. \<exists>pg. solr_search s h q ps = Inr pg)"

definition unchanged_index :: "'d solr_client \<Rightarrow> bool" where
  "unchanged_index s = (\<forall>h h' q ps. solr_search s h q ps = solr_search s h' q ps)"

text \<open>
  The same collaborator reporting other hit counts: \<open>f\<close> chooses the \<^verbatim>\<open>hits\<close> of every
  page it returns. \<open>rehit\<close> is a paginator attached to it, its current page relabelled
  alike.
\<close>

definition with_hits :: "('d Results \<Rightarrow> int) \<Rightarrow> 'd solr_client \<Rightarrow> 'd solr_client" where
  "with_hits f s =
     s\<lparr>solr_search := (\<lambda>h q ps. case solr_search s h q ps of
                                   Inl e \<Rightarrow> Inl e
                                 | Inr pg \<Rightarrow> Inr (pg\<lparr>hits := f pg\<rparr>))\<rparr>"

definition rehit :: "('d Results \<Rightarrow> int) \<Rightarrow> 'd SolrResultsPaginator \<Rightarrow> 'd SolrResultsPaginator" where
  "rehit f p =
     p\<lparr>psolr := with_hits f (psolr p),
       page := (case page p of None \<Rightarrow> None | Some pg \<Rightarrow> Some (pg\<lparr>hits := f pg\<rparr>))\<rparr>"

text \<open>
  A caller of one paginator: a sequence of \<^verbatim>\<open>next()\<close> and \<^verbatim>\<open>len()\<close> calls, each
  exception caught by the caller. \<open>run\<close> gives the log and the paginator after the
  calls, and what each call answered.
\<close>

datatype op = Next | Len

datatype 'd answer = Advanced "exn + 'd" | Size "exn + int"

fun run ::
  "'d call list \<Rightarrow> 'd SolrResultsPaginator \<Rightarrow> op list \<Rightarrow>
   'd call list \<times> 'd SolrResultsPaginator \<times> 'd answer list" where
  "run log p [] = (log, p, [])"
| "run log p (Next # ops) =
     (case next_method log p of
        (log1, p1, r) \<Rightarrow>
          (case run log1 p1 ops of (log2, p2, rs) \<Rightarrow> (log2, p2, Advanced r # rs)))"
| "run log p (Len # ops) =
     (case len_method log p of
        (log1, p1, r) \<Rightarrow>
          (case run log1 p1 ops of (log2, p2, rs) \<Rightarrow> (log2, p2, Size r # rs)))"

text \<open>The documents handed to the caller, and the answer of the first \<^verbatim>\<open>next()\<close>.\<close>

fun returned :: "'d answer list \<Rightarrow> 'd list" where
  "returned [] = []"
| "returned (Advanced (Inr d) # rs) = d # returned rs"
| "returned (Advanced (Inl e) # rs) = returned rs"
| "returned (Size r # rs) = returned rs"

fun first_advance :: "'d answer list \<Rightarrow> (exn + 'd) option" where
  "first_advance [] = None"
| "first_advance (Advanced r # rs) = Some r"
| "first_advance (Size r # rs) = first_advance rs"

text \<open>
  A paginator of the given construction from which no document was requested yet: it
  is as constructed, or \<^verbatim>\<open>len()\<close> has fetched the first page for it.
\<close>

definition before_first_advance ::
  "'d solr_client \<Rightarrow> string \<Rightarrow> params \<Rightarrow> int option \<Rightarrow> 'd SolrResultsPaginator \<Rightarrow> bool" where
  "before_first_advance s q dparams mx p =
     (psolr p = s \<and> query p = q \<and> default_params p = dparams \<and> max_index p = mx \<and>
      index p = 0 \<and> \<not> exhausted p \<and>
      (if initialized p
       then (case solr_search s [] q (dparams(''start'' \<mapsto> PInt 0)) of
               Inl e \<Rightarrow> False
             | Inr pg \<Rightarrow> page p = Some pg \<and> item_iter p = Some (docs pg))
       else True))"

section \<open>Facts about the batching writer\<close>

lemma one_by_one_calls:
  "one_by_one s log items = log @ map (\<lambda>d. Add [d] False) items"
  by (induction items arbitrary: log) (auto split: option.splits)

text \<open>
  \<^verbatim>\<open>flush\<close> written out: what is sent, what is left and what leaves the method, by
  the answers of the batched add and of the commit.
\<close>

lemma flush_cases:
  "flush log b =
     (case solr_add (solr b) log (batch b) (auto_commit b) of
        None \<Rightarrow> (log @ [Add (batch b) (auto_commit b)], b\<lparr>batch := [], batch_len := 0\<rparr>, None)
      | Some e \<Rightarrow>
          (if auto_commit b then
             (case solr_commit (solr b)
                     (log @ Add (batch b) True # map (\<lambda>d. Add [d] False) (batch b)) of
                None \<Rightarrow>
                  (log @ Add (batch b) True # map (\<lambda>d. Add [d] False) (batch b) @ [Commit],
                   b\<lparr>batch := [], batch_len := 0\<rparr>, None)
              | Some e' \<Rightarrow>
                  (if e' = SocketTimeout then
                     (log @ Add (batch b) True # map (\<lambda>d. Add [d] False) (batch b) @ [Commit],
                      b\<lparr>batch := [], batch_len := 0\<rparr>, None)
                   else
                     (log @ Add (batch b) True # map (\<lambda>d. Add [d] False) (batch b) @ [Commit],
                      b, Some e')))
           else (log @ Add (batch b) False # map (\<lambda>d. Add [d] False) (batch b),
                 b\<lparr>batch := [], batch_len := 0\<rparr>, None)))"
  by (simp add: flush_def Let_def commit_def one_by_one_calls split: option.splits)

subsection \<open>The one-by-one pass\<close>

text \<open>
  C4. When the batched add of \<^verbatim>\<open>flush\<close> raises (whatever it raises), the calls of this
  flush are: the batched add, then one add per buffered document, in the order of the
  buffer, each with \<^verbatim>\<open>commit=False\<close>, then one commit exactly when \<^verbatim>\<open>auto_commit\<close>
  is set. What the single adds answer appears nowhere: none of them stops the pass and
  none of them leaves \<^verbatim>\<open>flush\<close>; only the answer of the final commit decides what
  \<^verbatim>\<open>flush\<close> raises, and without \<^verbatim>\<open>auto_commit\<close> it raises nothing.
\<close>

theorem flush_fallback:
  assumes "solr_add (solr b) log (batch b) (auto_commit b) = Some e"
  shows "calls_of (flush log b) =
           log @ [Add (batch b) (auto_commit b)] @ map (\<lambda>d. Add [d] False) (batch b)
               @ (if auto_commit b then [Commit] else [])
       \<and> outcome_of (flush log b) =
           (if auto_commit b then
              (case solr_commit (solr b)
                      (log @ [Add (batch b) (auto_commit b)] @ map (\<lambda>d. Add [d] False) (batch b)) of
                 None \<Rightarrow> None
               | Some e' \<Rightarrow> if e' = SocketTimeout then None else Some e')
            else None)"
  using assms
  by (simp add: flush_cases calls_of_def outcome_of_def split: option.splits)

text \<open>Three buffered documents, every add refused, the commit accepted.\<close>

theorem flush_fallback_witness:
  "calls_of (flush [] \<lparr>solr = write_client (Some (SolrError ''400'')) None,
        batch = [1::nat, 2, 3], batch_len = 3, batch_size = 3, auto_commit = True\<rparr>)
     = [Add [1, 2, 3] True, Add [1] False, Add [2] False, Add [3] False, Commit]
   \<and> outcome_of (flush [] \<lparr>solr = write_client (Some (SolrError ''400'')) None,
        batch = [1::nat, 2, 3], batch_len = 3, batch_size = 3, auto_commit = True\<rparr>) = None"
  using flush_fallback [where log = "[]" and e = "SolrError ''400''" and b =
          "\<lparr>solr = write_client (Some (SolrError ''400'')) None,
            batch = [1::nat, 2, 3], batch_len = 3, batch_size = 3, auto_commit = True\<rparr>"]
  by (simp add: write_client_def)

subsection \<open>What flush leaves behind\<close>

text \<open>
  C3, as the code has it. \<^verbatim>\<open>flush\<close> returns normally with an empty batch whenever the
  batched add succeeds, or \<^verbatim>\<open>auto_commit\<close> is off, or the commit after the one-by-one
  pass succeeds or times out (\<^verbatim>\<open>socket.timeout\<close>), whatever the single adds answer.
  When the batched add fails, \<^verbatim>\<open>auto_commit\<close> is on and that commit raises anything
  else, the exception leaves \<^verbatim>\<open>flush\<close> and the writer is as it was before the call
  (the batch is not emptied).
\<close>

theorem flush_clears_unless_commit_error:
  "((solr_add (solr b) log (batch b) (auto_commit b) = None \<or> \<not> auto_commit b \<or>
     solr_commit (solr b) (log @ Add (batch b) True # map (\<lambda>d. Add [d] False) (batch b))
       \<in> {None, Some SocketTimeout})
    \<longrightarrow> outcome_of (flush log b) = None \<and> batch (state_of (flush log b)) = []
        \<and> batch_len (state_of (flush log b)) = 0)
   \<and> (\<forall>e e'. solr_add (solr b) log (batch b) (auto_commit b) = Some e \<and> auto_commit b \<and>
         solr_commit (solr b) (log @ Add (batch b) True # map (\<lambda>d. Add [d] False) (batch b))
           = Some e' \<and> e' \<noteq> SocketTimeout
       \<longrightarrow> outcome_of (flush log b) = Some e' \<and> state_of (flush log b) = b)"
  by (auto simp: flush_cases outcome_of_def state_of_def split: option.splits)

text \<open>The same failing adds with a commit that times out, and with one that is refused.\<close>

theorem flush_clears_witness:
  "outcome_of (flush [] \<lparr>solr = write_client (Some (OtherError ''boom'')) (Some SocketTimeout),
        batch = [4::nat, 5], batch_len = 2, batch_size = 2, auto_commit = True\<rparr>) = None
   \<and> batch (state_of (flush [] \<lparr>solr = write_client (Some (OtherError ''boom'')) (Some SocketTimeout),
        batch = [4::nat, 5], batch_len = 2, batch_size = 2, auto_commit = True\<rparr>)) = []
   \<and> outcome_of (flush [] \<lparr>solr = write_client (Some (OtherError ''boom'')) (Some (SolrError ''503'')),
        batch = [4::nat, 5], batch_len = 2, batch_size = 2, auto_commit = True\<rparr>) = Some (SolrError ''503'')
   \<and> batch (state_of (flush [] \<lparr>solr = write_client (Some (OtherError ''boom'')) (Some (SolrError ''503'')),
        batch = [4::nat, 5], batch_len = 2, batch_size = 2, auto_commit = True\<rparr>)) = [4, 5]"
  using flush_clears_unless_commit_error [where log = "[]" and b =
          "\<lparr>solr = write_client (Some (OtherError ''boom'')) (Some SocketTimeout),
            batch = [4::nat, 5], batch_len = 2, batch_size = 2, auto_commit = True\<rparr>"]
        flush_clears_unless_commit_error [where log = "[]" and b =
          "\<lparr>solr = write_client (Some (OtherError ''boom'')) (Some (SolrError ''503'')),
            batch = [4::nat, 5], batch_len = 2, batch_size = 2, auto_commit = True\<rparr>"]
  by (simp add: write_client_def)

text \<open>
  C3 as stated fails: every add refused, the commit refused with a server error;
  \<^verbatim>\<open>flush\<close> raises and the two documents are still in the batch.
\<close>

theorem flush_commit_error_counterexample:
  "outcome_of (flush [] \<lparr>solr = write_client (Some (SolrError ''add refused'')) (Some (SolrError ''commit refused'')),
        batch = [1::nat, 2], batch_len = 2, batch_size = 2, auto_commit = True\<rparr>) = Some (SolrError ''commit refused'')
   \<and> batch (state_of (flush [] \<lparr>solr = write_client (Some (SolrError ''add refused'')) (Some (SolrError ''commit refused'')),
        batch = [1::nat, 2], batch_len = 2, batch_size = 2, auto_commit = True\<rparr>)) = [1, 2]"
  by (simp add: flush_cases outcome_of_def state_of_def write_client_def)

subsection \<open>Commit failures\<close>

text \<open>
  C7, as the code has it. \<^verbatim>\<open>commit\<close> ignores a \<^verbatim>\<open>socket.timeout\<close> of the commit
  request and lets every other exception through; \<^verbatim>\<open>flush\<close> calls it only after the
  one-by-one pass with \<^verbatim>\<open>auto_commit\<close> on, outside any \<^verbatim>\<open>try\<close>, so that exception
  is what \<^verbatim>\<open>flush\<close> raises.
\<close>

theorem commit_swallows_timeout_only:
  "snd (commit log b) =
     (case solr_commit (solr b) log of
        None \<Rightarrow> None
      | Some e \<Rightarrow> if e = SocketTimeout then None else Some e)
   \<and> (solr_add (solr b) log (batch b) (auto_commit b) \<noteq> None \<and> auto_commit b \<longrightarrow>
        outcome_of (flush log b) =
          (case solr_commit (solr b)
                  (log @ Add (batch b) True # map (\<lambda>d. Add [d] False) (batch b)) of
             None \<Rightarrow> None
           | Some e \<Rightarrow> if e = SocketTimeout then None else Some e))"
  by (auto simp: flush_cases commit_def outcome_of_def split: option.splits)

text \<open>A commit that times out, and one that is refused after a failed batched add.\<close>

theorem commit_swallows_timeout_only_witness:
  "snd (commit [] \<lparr>solr = write_client None (Some SocketTimeout),
        batch = [9::nat], batch_len = 1, batch_size = 5, auto_commit = True\<rparr>) = None
   \<and> outcome_of (flush [] \<lparr>solr = write_client (Some (SolrError ''400'')) (Some (OtherError ''refused'')),
        batch = [9::nat], batch_len = 1, batch_size = 5, auto_commit = True\<rparr>)
       = Some (OtherError ''refused'')"
  using commit_swallows_timeout_only [where log = "[]" and b =
          "\<lparr>solr = write_client None (Some SocketTimeout),
            batch = [9::nat], batch_len = 1, batch_size = 5, auto_commit = True\<rparr>"]
        commit_swallows_timeout_only [where log = "[]" and b =
          "\<lparr>solr = write_client (Some (SolrError ''400'')) (Some (OtherError ''refused'')),
            batch = [9::nat], batch_len = 1, batch_size = 5, auto_commit = True\<rparr>"]
  by (simp add: write_client_def)

text \<open>
  C7 as stated fails: the batched add times out, the commit answers a server error, and
  the server error reaches the caller of \<^verbatim>\<open>flush\<close>.
\<close>

theorem commit_server_error_counterexample:
  "outcome_of (flush [] \<lparr>solr = write_client (Some SocketTimeout) (Some (SolrError ''500'')),
        batch = [7::nat], batch_len = 1, batch_size = 10, auto_commit = True\<rparr>)
     = Some (SolrError ''500'')"
  by (simp add: flush_cases outcome_of_def write_client_def)

subsection \<open>Flushing an empty batch\<close>

text \<open>
  C10. \<^verbatim>\<open>flush\<close> on an empty batch still calls the collaborator: exactly one add, of
  the empty list, carrying \<^verbatim>\<open>commit=auto_commit\<close> (so a successful call commits when
  \<^verbatim>\<open>auto_commit\<close> is on); the one-by-one pass after a failure has nothing to send and
  only the commit follows. The context manager flushes on exit, so a \<^verbatim>\<open>with\<close> body
  that leaves the batch empty is followed by that add of the empty list.
\<close>

theorem flush_empty_buffer:
  "(batch b = [] \<longrightarrow>
      calls_of (flush log b) =
        log @ [Add [] (auto_commit b)]
            @ (if solr_add (solr b) log [] (auto_commit b) \<noteq> None \<and> auto_commit b
               then [Commit] else []))
   \<and> (batch (state_of (body log (SolrBatchAdder_init s bsize ac))) = [] \<longrightarrow>
        (\<exists>rest. calls_of (solr_batch_adder s bsize ac body log) =
           calls_of (body log (SolrBatchAdder_init s bsize ac))
             @ Add [] (auto_commit (state_of (body log (SolrBatchAdder_init s bsize ac)))) # rest))"
  by (cases "body log (SolrBatchAdder_init s bsize ac)")
     (auto simp: flush_cases calls_of_def state_of_def solr_batch_adder_def Let_def
           split: option.splits)

text \<open>A fresh writer flushed at once, and a \<^verbatim>\<open>with\<close> block whose body does nothing.\<close>

theorem flush_empty_buffer_witness:
  "calls_of (flush [] (SolrBatchAdder_init (write_client None None :: nat solr_client) 500 True))
     = [Add [] True]
   \<and> (\<exists>rest. calls_of (solr_batch_adder (write_client None None :: nat solr_client) 500 False
                  (\<lambda>log b. (log, b, None)) []) = Add [] False # rest)"
  using flush_empty_buffer [where b = "SolrBatchAdder_init (write_client None None :: nat solr_client) 500 True"
          and log = "[]" and body = "\<lambda>log b. (log, b, None)"
          and s = "write_client None None :: nat solr_client" and bsize = 500 and ac = False]
  by (simp add: write_client_def SolrBatchAdder_init_def calls_of_def state_of_def)

subsection \<open>When add_one flushes\<close>

text \<open>\<^verbatim>\<open>add_multi\<close> is the caller's loop of \<^verbatim>\<open>add_one\<close> calls.\<close>

lemma add_multi_add_ones: "add_multi log b ds = add_ones log b ds"
  by (induction ds arbitrary: log b) (auto simp: add_one_def split: option.splits)

lemma add_ones_snoc:
  "add_ones log b (ds @ [d]) =
     (case add_ones log b ds of
        (log1, b1, None) \<Rightarrow> add_one log1 b1 d
      | (log1, b1, Some e) \<Rightarrow> (log1, b1, Some e))"
proof (induction ds arbitrary: log b)
  case Nil
  show ?case by (cases "add_one log b d") (auto split: option.splits)
next
  case (Cons x xs)
  show ?case
  proof (cases "add_one log b x")
    case (fields log1 b1 r)
    then show ?thesis
      using Cons.IH [of log1 b1] by (cases r) simp_all
  qed
qed

lemma add_one_accepting:
  assumes "accepts_adds (solr b)"
  shows "add_one log b d =
     (if batch_len b = batch_size b
      then (log @ [Add (batch b) (auto_commit b)], b\<lparr>batch := [d], batch_len := 1\<rparr>, None)
      else (log, b\<lparr>batch := batch b @ [d], batch_len := batch_len b + 1\<rparr>, None))"
  using assms
  by (simp add: add_one_def append_commit_def flush_cases add_to_batch_def accepts_adds_def)

lemma chunks_unchanged:
  assumes "length ds = Suc j"
  shows "map (\<lambda>i. Add (take B (drop (i * B) (ds @ [d]))) ac) [0 ..< j div B]
       = map (\<lambda>i. Add (take B (drop (i * B) ds)) ac) [0 ..< j div B]"
proof (rule map_cong [OF refl])
  fix i assume "i \<in> set [0 ..< j div B]"
  then have "Suc i \<le> j div B" by simp
  then have "Suc i * B \<le> (j div B) * B" by (rule mult_le_mono1)
  also have "\<dots> \<le> j" by (rule div_times_less_eq_dividend)
  finally have "Suc i * B \<le> length ds" using assms by linarith
  then show "Add (take B (drop (i * B) (ds @ [d]))) ac = Add (take B (drop (i * B) ds)) ac"
    by simp
qed

text \<open>The writer after \<^verbatim>\<open>add_one\<close> calls that did not raise, whatever the adds answered.\<close>

lemma add_one_state:
  assumes "outcome_of (add_one log b d) = None"
  shows "state_of (add_one log b d) =
     (if batch_len b = batch_size b then b\<lparr>batch := [d], batch_len := 1\<rparr>
      else b\<lparr>batch := batch b @ [d], batch_len := batch_len b + 1\<rparr>)"
  using assms
  by (auto simp: add_one_def append_commit_def flush_cases add_to_batch_def outcome_of_def
        state_of_def split: option.splits if_splits)

lemma batch_arith:
  assumes "0 < B"
  shows "Suc j - B * (j div B) = Suc (j mod B)"
    and "Suc (j mod B) = B \<Longrightarrow> Suc j div B = Suc (j div B) \<and> B * Suc (j div B) = Suc j"
    and "Suc (j mod B) \<noteq> B \<Longrightarrow> Suc j div B = j div B"
proof -
  have le: "B * (j div B) \<le> j" by (rule times_div_less_eq_dividend)
  show r: "Suc j - B * (j div B) = Suc (j mod B)"
    by (metis Suc_diff_le le minus_mult_div_eq_mod)
  show "Suc (j mod B) \<noteq> B \<Longrightarrow> Suc j div B = j div B"
    by (simp add: div_Suc mod_Suc)
  assume t: "Suc (j mod B) = B"
  then have "Suc j mod B = 0" by (simp add: mod_Suc)
  moreover have "Suc j div B = Suc (j div B)" using t by (simp add: div_Suc mod_Suc)
  ultimately show "Suc j div B = Suc (j div B) \<and> B * Suc (j div B) = Suc j"
    by (metis mult_div_mod_eq add.right_neutral)
qed

lemma add_ones_state:
  assumes "0 < B"
    and "outcome_of (add_ones [] (SolrBatchAdder_init s (int B) ac) ds) = None"
  shows "state_of (add_ones [] (SolrBatchAdder_init s (int B) ac) ds) =
           \<lparr>solr = s, batch = drop (B * ((length ds - 1) div B)) ds,
            batch_len = int (length ds - B * ((length ds - 1) div B)),
            batch_size = int B, auto_commit = ac\<rparr>"
  using assms(2)
proof (induction ds rule: rev_induct)
  case Nil
  show ?case by (simp add: SolrBatchAdder_init_def state_of_def)
next
  case (snoc d ds)
  obtain log1 b1 r1 where p: "add_ones [] (SolrBatchAdder_init s (int B) ac) ds = (log1, b1, r1)"
    by (cases "add_ones [] (SolrBatchAdder_init s (int B) ac) ds") auto
  have r1: "r1 = None"
    using snoc.prems p by (cases r1) (simp_all add: add_ones_snoc outcome_of_def)
  have b1: "b1 = \<lparr>solr = s, batch = drop (B * ((length ds - 1) div B)) ds,
            batch_len = int (length ds - B * ((length ds - 1) div B)),
            batch_size = int B, auto_commit = ac\<rparr>"
    using snoc.IH p r1 by (simp add: outcome_of_def state_of_def)
  have whole: "add_ones [] (SolrBatchAdder_init s (int B) ac) (ds @ [d]) = add_one log1 b1 d"
    using p r1 by (simp add: add_ones_snoc)
  have st: "state_of (add_ones [] (SolrBatchAdder_init s (int B) ac) (ds @ [d])) =
     (if batch_len b1 = batch_size b1 then b1\<lparr>batch := [d], batch_len := 1\<rparr>
      else b1\<lparr>batch := batch b1 @ [d], batch_len := batch_len b1 + 1\<rparr>)"
    using add_one_state [of log1 b1 d] snoc.prems whole by simp
  show ?case
  proof (cases ds)
    case Nil
    then show ?thesis using st b1 assms(1) by simp
  next
    case (Cons y ys)
    define j where "j = length ys"
    have len: "length ds = Suc j" by (simp add: Cons j_def)
    note ar = batch_arith [OF assms(1), of j]
    have le: "B * (j div B) \<le> length ds"
      using times_div_less_eq_dividend [of B j] len by linarith
    show ?thesis
    proof (cases "Suc (j mod B) = B")
      case True
      then show ?thesis
        using st b1 len ar(1) ar(2) by simp
    next
      case False
      then show ?thesis
        using st b1 len ar(1) ar(3) le by (simp add: Suc_diff_le)
    qed
  qed
qed

text \<open>The calls made when every add is accepted.\<close>

lemma add_ones_accepting:
  assumes "accepts_adds s" and "0 < B"
  shows "add_ones [] (SolrBatchAdder_init s (int B) ac) ds =
           (map (\<lambda>i. Add (take B (drop (i * B) ds)) ac) [0 ..< (length ds - 1) div B],
            \<lparr>solr = s, batch = drop (B * ((length ds - 1) div B)) ds,
             batch_len = int (length ds - B * ((length ds - 1) div B)),
             batch_size = int B, auto_commit = ac\<rparr>,
            None)"
proof (induction ds rule: rev_induct)
  case Nil
  show ?case by (simp add: SolrBatchAdder_init_def)
next
  case (snoc d ds)
  let ?m = "(length ds - 1) div B"
  let ?b = "\<lparr>solr = s, batch = drop (B * ?m) ds,
             batch_len = int (length ds - B * ?m), batch_size = int B, auto_commit = ac\<rparr>"
  have acc: "accepts_adds (solr ?b)" using assms(1) by simp
  show ?case
  proof (cases ds)
    case Nil
    then show ?thesis
      using assms snoc.IH acc
      by (simp add: add_ones_snoc add_one_accepting SolrBatchAdder_init_def)
  next
    case (Cons y ys)
    define j where "j = length ys"
    have len: "length ds = Suc j" by (simp add: Cons j_def)
    have m: "?m = j div B" by (simp add: len)
    have le: "B * (j div B) \<le> j" by (rule times_div_less_eq_dividend)
    have rest: "Suc j - B * (j div B) = Suc (j mod B)"
      by (metis Suc_diff_le le minus_mult_div_eq_mod)
    show ?thesis
    proof (cases "Suc (j mod B) = B")
      case True
      have full: "Suc j = B * Suc (j div B)"
        using True rest le by (metis add.commute le_add_diff_inverse2 mult_Suc_right trans_le_add2 Suc_leD le_SucI)
      have d: "Suc j div B = Suc (j div B)"
        using full assms(2) by (metis nonzero_mult_div_cancel_left less_numeral_extra(3))
      note chunks = chunks_unchanged [OF len, of B d ac]
      have last: "take B (drop (j div B * B) (ds @ [d])) = drop (B * (j div B)) ds"
        using full len by (simp add: mult.commute)
      show ?thesis
        using assms snoc.IH acc True rest d chunks last full len m
        by (simp add: add_ones_snoc add_one_accepting mult.commute)
    next
      case False
      have d: "Suc j div B = j div B"
        using False by (simp add: div_Suc mod_Suc)
      have lt: "B * (j div B) \<le> length ds" using le len by linarith
      note chunks = chunks_unchanged [OF len, of B d ac]
      show ?thesis
        using assms snoc.IH acc False rest d chunks lt len m
        by (simp add: add_ones_snoc add_one_accepting Suc_diff_le)
    qed
  qed
qed

text \<open>
  C1, as the code has it. \<^verbatim>\<open>add_one\<close> tests the batch before it appends: a batch that
  already holds \<^verbatim>\<open>batch_size\<close> documents is flushed first, then the document is
  appended. So on a new writer with \<^verbatim>\<open>batch_size = B > 0\<close>, after \<open>N\<close> calls of
  \<^verbatim>\<open>add_one\<close> none of which raised, \<open>(N - 1) div B\<close> batches have been flushed and the
  remaining \<open>N - B * ((N - 1) div B)\<close> documents are in the batch: between 1 and \<open>B\<close> of
  them when \<open>N > 0\<close>. With a collaborator that accepts every add, the calls made are
  exactly \<open>(N - 1) div B\<close> batched adds, the \<open>i\<close>-th of the documents \<open>i * B\<close> to
  \<open>i * B + B - 1\<close> with \<^verbatim>\<open>commit=auto_commit\<close>, and no call raises.
\<close>

theorem add_one_flushes_before_append:
  assumes "0 < B"
  shows "(outcome_of (add_ones [] (SolrBatchAdder_init s (int B) ac) ds) = None \<longrightarrow>
            state_of (add_ones [] (SolrBatchAdder_init s (int B) ac) ds) =
              \<lparr>solr = s, batch = drop (B * ((length ds - 1) div B)) ds,
               batch_len = int (length ds - B * ((length ds - 1) div B)),
               batch_size = int B, auto_commit = ac\<rparr>)
       \<and> (accepts_adds s \<longrightarrow>
            add_ones [] (SolrBatchAdder_init s (int B) ac) ds =
              (map (\<lambda>i. Add (take B (drop (i * B) ds)) ac) [0 ..< (length ds - 1) div B],
               \<lparr>solr = s, batch = drop (B * ((length ds - 1) div B)) ds,
                batch_len = int (length ds - B * ((length ds - 1) div B)),
                batch_size = int B, auto_commit = ac\<rparr>,
               None))"
  using add_ones_state [OF assms, of s ac ds] add_ones_accepting [OF _ assms, of s ac ds]
  by blast

text \<open>
  Batch size 2 and three documents: the third \<^verbatim>\<open>add_one\<close> flushes the first two and
  the batch holds the third; with a collaborator that refuses every add the batch is
  the same.
\<close>

theorem add_one_flushes_before_append_witness:
  "add_ones [] (SolrBatchAdder_init (write_client None None) 2 True) [1::nat, 2, 3] =
     ([Add [1, 2] True],
      \<lparr>solr = write_client None None, batch = [3], batch_len = 1, batch_size = 2,
       auto_commit = True\<rparr>,
      None)
   \<and> batch (state_of (add_ones [] (SolrBatchAdder_init
         (write_client (Some (SolrError ''400'')) None) 2 False) [1::nat, 2, 3])) = [3]"
  using add_one_flushes_before_append [where s = "write_client None None" and B = 2
          and ac = True and ds = "[1::nat, 2, 3]"]
        add_one_flushes_before_append [where s = "write_client (Some (SolrError ''400'')) None"
          and B = 2 and ac = False and ds = "[1::nat, 2, 3]"]
  by (simp add: accepts_adds_def write_client_def add_one_def append_commit_def
        add_to_batch_def flush_cases SolrBatchAdder_init_def outcome_of_def)

text \<open>
  C1 as stated fails: with batch size 2, after the second \<^verbatim>\<open>add_one\<close> nothing has been
  sent and both documents are in the batch.
\<close>

theorem second_add_one_does_not_flush_counterexample:
  "calls_of (add_ones [] (SolrBatchAdder_init (write_client None None) 2 True) [1::nat, 2]) = []
   \<and> batch (state_of (add_ones [] (SolrBatchAdder_init (write_client None None) 2 True) [1::nat, 2]))
       = [1, 2]"
  by (simp add: add_one_def append_commit_def add_to_batch_def SolrBatchAdder_init_def
        calls_of_def state_of_def)

section \<open>Facts about the paginator\<close>

text \<open>
  \<^verbatim>\<open>_next\<close> calls itself at most once, on a page it has just seen to be non-empty;
  written out, it is a case distinction on the generator and on the answer of the fetch.
\<close>

lemma next_private_cases:
  "next_private log p =
     (case item_iter p of
        None \<Rightarrow> (log, p, Inl AttributeError)
      | Some [] \<Rightarrow>
          (case solr_search (psolr p) log (query p) ((default_params p)(''start'' \<mapsto> PInt (index p))) of
             Inl e \<Rightarrow>
               (log @ [Search (query p) ((default_params p)(''start'' \<mapsto> PInt (index p)))],
                p\<lparr>exhausted := True\<rparr>, Inl StopIteration)
           | Inr pg \<Rightarrow>
               (case docs pg of
                  [] \<Rightarrow>
                    (log @ [Search (query p) ((default_params p)(''start'' \<mapsto> PInt (index p)))],
                     p\<lparr>page := Some pg, item_iter := Some [], exhausted := True\<rparr>,
                     Inl StopIteration)
                | x # xs \<Rightarrow>
                    (log @ [Search (query p) ((default_params p)(''start'' \<mapsto> PInt (index p)))],
                     p\<lparr>page := Some pg, item_iter := Some xs, cursor := Some x\<rparr>, Inr x)))
      | Some (x # xs) \<Rightarrow> (log, p\<lparr>item_iter := Some xs, cursor := Some x\<rparr>, Inr x))"
  apply (subst next_private.simps)
  apply (simp add: move_to_next_page_def Let_def split: option.splits list.splits sum.splits)
  apply (intro allI impI conjI)
  apply (subst next_private.simps)
  apply (simp add: move_to_next_page_def Let_def split: option.splits list.splits sum.splits)
  done

lemma init_if_needed_cases:
  "init_if_needed log p =
     (if initialized p then (log, p, Inr ())
      else (case solr_search (psolr p) log (query p) ((default_params p)(''start'' \<mapsto> PInt (index p))) of
              Inl e \<Rightarrow>
                (log @ [Search (query p) ((default_params p)(''start'' \<mapsto> PInt (index p)))], p, Inl e)
            | Inr pg \<Rightarrow>
                (log @ [Search (query p) ((default_params p)(''start'' \<mapsto> PInt (index p)))],
                 p\<lparr>page := Some pg, item_iter := Some (docs pg), initialized := True\<rparr>, Inr ())))"
  by (simp add: init_if_needed_def move_to_next_page_def Let_def split: sum.splits)

text \<open>The equations that evaluate the paginator on a concrete collaborator.\<close>

lemmas eval_paginator =
  next_method_def check_max_index_def init_if_needed_cases next_private_cases len_method_def
  SolrResultsPaginator_init_def calls_of_def state_of_def outcome_of_def
  index_client_def flaky_client_def window_def rows_of_def start_of_def

subsection \<open>The index ceiling\<close>

text \<open>
  C9. With a ceiling \<^verbatim>\<open>max_index = m\<close> and a count \<^verbatim>\<open>index\<close> above it, \<^verbatim>\<open>next()\<close>
  raises \<open>StopIteration\<close> with the log unchanged (no search is sent) and the paginator
  unchanged; so \<^verbatim>\<open>len()\<close> after the cut answers what it would have answered before.
\<close>

theorem next_stops_at_max_index:
  assumes "max_index p = Some m" and "m < index p"
  shows "next_method log p = (log, p, Inl StopIteration)
       \<and> len_method log (state_of (next_method log p)) = len_method log p"
  using assms by (simp add: next_method_def check_max_index_def state_of_def)

text \<open>Ceiling 1 over three documents: two are returned, the third call is cut.\<close>

theorem next_stops_at_max_index_witness:
  "index (state_of (run [] (SolrResultsPaginator_init (index_client [10, 20, 30::nat]) ''*:*''
                              [''rows'' \<mapsto> PInt 2] (Some 1)) [Next, Next])) = 2
   \<and> returned (outcome_of (run [] (SolrResultsPaginator_init (index_client [10, 20, 30::nat]) ''*:*''
                              [''rows'' \<mapsto> PInt 2] (Some 1)) [Next, Next])) = [10, 20]
   \<and> outcome_of (next_method
        (calls_of (run [] (SolrResultsPaginator_init (index_client [10, 20, 30::nat]) ''*:*''
                              [''rows'' \<mapsto> PInt 2] (Some 1)) [Next, Next]))
        (state_of (run [] (SolrResultsPaginator_init (index_client [10, 20, 30::nat]) ''*:*''
                              [''rows'' \<mapsto> PInt 2] (Some 1)) [Next, Next])))
      = Inl StopIteration
   \<and> calls_of (next_method
        (calls_of (run [] (SolrResultsPaginator_init (index_client [10, 20, 30::nat]) ''*:*''
                              [''rows'' \<mapsto> PInt 2] (Some 1)) [Next, Next]))
        (state_of (run [] (SolrResultsPaginator_init (index_client [10, 20, 30::nat]) ''*:*''
                              [''rows'' \<mapsto> PInt 2] (Some 1)) [Next, Next])))
      = calls_of (run [] (SolrResultsPaginator_init (index_client [10, 20, 30::nat]) ''*:*''
                              [''rows'' \<mapsto> PInt 2] (Some 1)) [Next, Next])"
  using next_stops_at_max_index [where m = 1
     and log = "calls_of (run [] (SolrResultsPaginator_init (index_client [10, 20, 30::nat]) ''*:*''
                              [''rows'' \<mapsto> PInt 2] (Some 1)) [Next, Next])"
     and p = "state_of (run [] (SolrResultsPaginator_init (index_client [10, 20, 30::nat]) ''*:*''
                              [''rows'' \<mapsto> PInt 2] (Some 1)) [Next, Next])"]
  by (simp add: eval_paginator)

subsection \<open>A search that raises\<close>

text \<open>
  C2, as the code has it. When the ceiling check passes and the fetch raises \<open>e\<close>:
  on a paginator that has not fetched yet (the fetch of \<^verbatim>\<open>_init_if_needed\<close>), \<^verbatim>\<open>next()\<close>
  raises \<open>e\<close> and the paginator is unchanged, so the call can be repeated; on an
  initialized paginator whose page is consumed (the fetch of \<^verbatim>\<open>_next\<close>), the bare
  \<^verbatim>\<open>except\<close> catches \<open>e\<close>, sets \<^verbatim>\<open>exhausted\<close> and \<^verbatim>\<open>next()\<close> raises \<open>StopIteration\<close>.
\<close>

theorem fetch_error_in_next:
  assumes "check_max_index p = Inr ()"
    and "solr_search (psolr p) log (query p) ((default_params p)(''start'' \<mapsto> PInt (index p))) = Inl e"
  shows "(\<not> initialized p \<longrightarrow>
            next_method log p =
              (log @ [Search (query p) ((default_params p)(''start'' \<mapsto> PInt (index p)))], p, Inl e))
       \<and> (initialized p \<and> item_iter p = Some [] \<longrightarrow>
            next_method log p =
              (log @ [Search (query p) ((default_params p)(''start'' \<mapsto> PInt (index p)))],
               p\<lparr>exhausted := True\<rparr>, Inl StopIteration))"
  using assms by (simp add: next_method_def init_if_needed_cases next_private_cases)

text \<open>A server error on the very first fetch, and one on the second page.\<close>

theorem fetch_error_in_next_witness:
  "outcome_of (next_method [Commit]
      (SolrResultsPaginator_init (flaky_client [10, 20::nat] (SolrError ''503'')) ''*:*''
         [''rows'' \<mapsto> PInt 1] None)) = Inl (SolrError ''503'')
   \<and> state_of (next_method [Commit]
      (SolrResultsPaginator_init (flaky_client [10, 20::nat] (SolrError ''503'')) ''*:*''
         [''rows'' \<mapsto> PInt 1] None))
     = SolrResultsPaginator_init (flaky_client [10, 20::nat] (SolrError ''503'')) ''*:*''
         [''rows'' \<mapsto> PInt 1] None
   \<and> outcome_of (next_method
        (calls_of (next_method [] (SolrResultsPaginator_init
           (flaky_client [10, 20::nat] (SolrError ''503'')) ''*:*'' [''rows'' \<mapsto> PInt 1] None)))
        (state_of (next_method [] (SolrResultsPaginator_init
           (flaky_client [10, 20::nat] (SolrError ''503'')) ''*:*'' [''rows'' \<mapsto> PInt 1] None))))
     = Inl StopIteration"
  using fetch_error_in_next [where log = "[Commit]" and e = "SolrError ''503''" and p =
          "SolrResultsPaginator_init (flaky_client [10, 20::nat] (SolrError ''503'')) ''*:*''
             [''rows'' \<mapsto> PInt 1] None"]
        fetch_error_in_next [where e = "SolrError ''503''"
          and log = "calls_of (next_method [] (SolrResultsPaginator_init
             (flaky_client [10, 20::nat] (SolrError ''503'')) ''*:*'' [''rows'' \<mapsto> PInt 1] None))"
          and p = "state_of (next_method [] (SolrResultsPaginator_init
             (flaky_client [10, 20::nat] (SolrError ''503'')) ''*:*'' [''rows'' \<mapsto> PInt 1] None))"]
  by (simp add: eval_paginator)

text \<open>
  C2 as stated fails: the first page is served, the fetch of the second page raises a
  server error; the second \<^verbatim>\<open>next()\<close> raises \<open>StopIteration\<close>, not the error, and the
  paginator is marked exhausted.
\<close>

theorem later_fetch_error_counterexample:
  "outcome_of (next_method [] (SolrResultsPaginator_init
       (flaky_client [10, 20::nat] (SolrError ''503'')) ''*:*'' [''rows'' \<mapsto> PInt 1] None))
     = Inr 10
   \<and> outcome_of (next_method
        (calls_of (next_method [] (SolrResultsPaginator_init
           (flaky_client [10, 20::nat] (SolrError ''503'')) ''*:*'' [''rows'' \<mapsto> PInt 1] None)))
        (state_of (next_method [] (SolrResultsPaginator_init
           (flaky_client [10, 20::nat] (SolrError ''503'')) ''*:*'' [''rows'' \<mapsto> PInt 1] None))))
     = Inl StopIteration
   \<and> exhausted (state_of (next_method
        (calls_of (next_method [] (SolrResultsPaginator_init
           (flaky_client [10, 20::nat] (SolrError ''503'')) ''*:*'' [''rows'' \<mapsto> PInt 1] None)))
        (state_of (next_method [] (SolrResultsPaginator_init
           (flaky_client [10, 20::nat] (SolrError ''503'')) ''*:*'' [''rows'' \<mapsto> PInt 1] None)))))"
  by (simp add: eval_paginator)

subsection \<open>The index and the start parameter\<close>

text \<open>What each method leaves alone, and what it sends.\<close>

lemma init_if_needed_frame:
  "query (state_of (init_if_needed log p)) = query p
   \<and> default_params (state_of (init_if_needed log p)) = default_params p
   \<and> index (state_of (init_if_needed log p)) = index p
   \<and> max_index (state_of (init_if_needed log p)) = max_index p
   \<and> psolr (state_of (init_if_needed log p)) = psolr p
   \<and> exhausted (state_of (init_if_needed log p)) = exhausted p
   \<and> (\<exists>k. calls_of (init_if_needed log p) =
          log @ replicate k (Search (query p) ((default_params p)(''start'' \<mapsto> PInt (index p)))))"
proof -
  have "\<exists>k. calls_of (init_if_needed log p) =
          log @ replicate k (Search (query p) ((default_params p)(''start'' \<mapsto> PInt (index p))))"
  proof (cases "initialized p")
    case True
    then show ?thesis
      by (intro exI[of _ 0]) (simp add: init_if_needed_cases calls_of_def)
  next
    case False
    then show ?thesis
      by (intro exI[of _ 1]) (simp add: init_if_needed_cases calls_of_def split: sum.splits)
  qed
  then show ?thesis
    by (simp add: init_if_needed_cases state_of_def split: sum.splits)
qed

lemma next_private_frame:
  "query (state_of (next_private log p)) = query p
   \<and> default_params (state_of (next_private log p)) = default_params p
   \<and> index (state_of (next_private log p)) = index p
   \<and> max_index (state_of (next_private log p)) = max_index p
   \<and> psolr (state_of (next_private log p)) = psolr p
   \<and> (\<exists>k. calls_of (next_private log p) =
          log @ replicate k (Search (query p) ((default_params p)(''start'' \<mapsto> PInt (index p)))))"
proof -
  have "\<exists>k. calls_of (next_private log p) =
          log @ replicate k (Search (query p) ((default_params p)(''start'' \<mapsto> PInt (index p))))"
  proof (cases "item_iter p = Some []")
    case True
    then show ?thesis
      by (intro exI[of _ 1])
         (simp add: next_private_cases calls_of_def split: sum.splits list.splits)
  next
    case False
    then show ?thesis
      by (intro exI[of _ 0])
         (simp add: next_private_cases calls_of_def split: option.splits list.splits)
  qed
  then show ?thesis
    by (simp add: next_private_cases state_of_def split: sum.splits option.splits list.splits)
qed

lemma next_private_cursor:
  "outcome_of (next_private log p) = Inr d \<Longrightarrow> cursor (state_of (next_private log p)) = Some d"
  by (auto simp: next_private_cases state_of_def outcome_of_def
           split: sum.splits option.splits list.splits)

lemma next_method_frame:
  "query (state_of (next_method log p)) = query p
   \<and> default_params (state_of (next_method log p)) = default_params p
   \<and> max_index (state_of (next_method log p)) = max_index p
   \<and> psolr (state_of (next_method log p)) = psolr p
   \<and> index (state_of (next_method log p)) =
        index p + (case outcome_of (next_method log p) of Inl e \<Rightarrow> 0 | Inr d \<Rightarrow> 1)
   \<and> (\<exists>k. calls_of (next_method log p) =
          log @ replicate k (Search (query p) ((default_params p)(''start'' \<mapsto> PInt (index p)))))"
proof (cases "check_max_index p")
  case (Inl e)
  then show ?thesis
    by (simp add: next_method_def state_of_def outcome_of_def calls_of_def)
next
  case (Inr u)
  obtain log1 p1 r1 where i: "init_if_needed log p = (log1, p1, r1)"
    by (cases "init_if_needed log p") auto
  obtain log2 p2 r2 where n: "next_private log1 p1 = (log2, p2, r2)"
    by (cases "next_private log1 p1") auto
  from init_if_needed_frame [of log p] i
  obtain k1 where f1: "query p1 = query p" "default_params p1 = default_params p"
      "index p1 = index p" "max_index p1 = max_index p" "psolr p1 = psolr p"
      "log1 = log @ replicate k1 (Search (query p) ((default_params p)(''start'' \<mapsto> PInt (index p))))"
    by (auto simp: state_of_def calls_of_def)
  from next_private_frame [of log1 p1] n
  obtain k2 where f2: "query p2 = query p1" "default_params p2 = default_params p1"
      "index p2 = index p1" "max_index p2 = max_index p1" "psolr p2 = psolr p1"
      "log2 = log1 @ replicate k2 (Search (query p1) ((default_params p1)(''start'' \<mapsto> PInt (index p1))))"
    by (auto simp: state_of_def calls_of_def)
  have c: "\<And>d. r2 = Inr d \<Longrightarrow> cursor p2 = Some d"
    using next_private_cursor [of log1 p1] n by (simp add: state_of_def outcome_of_def)
  have l2: "log2 = log @ replicate (k1 + k2) (Search (query p) ((default_params p)(''start'' \<mapsto> PInt (index p))))"
    using f1 f2 by (simp add: replicate_add)
  have ex1: "\<exists>k. log1 = log @ replicate k (Search (query p) ((default_params p)(''start'' \<mapsto> PInt (index p))))"
    using f1(6) by blast
  have ex2: "\<exists>k. log2 = log @ replicate k (Search (query p) ((default_params p)(''start'' \<mapsto> PInt (index p))))"
    using l2 by blast
  show ?thesis
  proof (cases r1)
    case (Inl e)
    then show ?thesis
      using Inr i f1(1-5) ex1
      by (auto simp: next_method_def state_of_def outcome_of_def calls_of_def)
  next
    case r1: (Inr u1)
    show ?thesis
    proof (cases r2)
      case (Inl e)
      then show ?thesis
        using Inr i n r1 f1(1-5) f2(1-5) ex2
        by (auto simp: next_method_def state_of_def outcome_of_def calls_of_def)
    next
      case (Inr d)
      then show ?thesis
        using \<open>check_max_index p = Inr u\<close> i n r1 f1(1-5) f2(1-5) ex2 c [of d]
        by (auto simp: next_method_def state_of_def outcome_of_def calls_of_def)
    qed
  qed
qed

lemma len_method_frame:
  "query (state_of (len_method log p)) = query p
   \<and> default_params (state_of (len_method log p)) = default_params p
   \<and> max_index (state_of (len_method log p)) = max_index p
   \<and> psolr (state_of (len_method log p)) = psolr p
   \<and> index (state_of (len_method log p)) = index p
   \<and> exhausted (state_of (len_method log p)) = exhausted p
   \<and> (\<exists>k. calls_of (len_method log p) =
          log @ replicate k (Search (query p) ((default_params p)(''start'' \<mapsto> PInt (index p)))))"
proof -
  obtain log1 p1 r1 where i: "init_if_needed log p = (log1, p1, r1)"
    by (cases "init_if_needed log p") auto
  have "state_of (len_method log p) = p1" "calls_of (len_method log p) = log1"
    using i by (auto simp: len_method_def state_of_def calls_of_def split: sum.splits option.splits)
  then show ?thesis
    using init_if_needed_frame [of log p] i by (simp add: state_of_def calls_of_def)
qed

lemma run_frame:
  "query (state_of (run log p ops)) = query p
   \<and> default_params (state_of (run log p ops)) = default_params p
   \<and> max_index (state_of (run log p ops)) = max_index p
   \<and> psolr (state_of (run log p ops)) = psolr p
   \<and> index (state_of (run log p ops)) = index p + int (length (returned (outcome_of (run log p ops))))"
proof (induction ops arbitrary: log p)
  case Nil
  show ?case by (simp add: state_of_def outcome_of_def)
next
  case (Cons x ops)
  show ?case
  proof (cases x)
    case Next
    obtain log1 p1 r where s: "next_method log p = (log1, p1, r)"
      by (cases "next_method log p") auto
    obtain log2 p2 rs where t: "run log1 p1 ops = (log2, p2, rs)"
      by (cases "run log1 p1 ops") auto
    from Cons.IH [of log1 p1] next_method_frame [of log p] s t Next
    show ?thesis
      by (cases r) (simp_all add: state_of_def outcome_of_def)
  next
    case Len
    obtain log1 p1 r where s: "len_method log p = (log1, p1, r)"
      by (cases "len_method log p") auto
    obtain log2 p2 rs where t: "run log1 p1 ops = (log2, p2, rs)"
      by (cases "run log1 p1 ops") auto
    from Cons.IH [of log1 p1] len_method_frame [of log p] s t Len
    show ?thesis
      by (simp add: state_of_def outcome_of_def)
  qed
qed

text \<open>
  C8. After any sequence of \<^verbatim>\<open>next()\<close> and \<^verbatim>\<open>len()\<close> calls on a new paginator,
  \<^verbatim>\<open>index\<close> is the number of documents returned to the caller so far, and whatever the
  next call fetches (zero, one or two searches) is the query with the default
  parameters and \<^verbatim>\<open>start\<close> set to exactly that number.
\<close>

theorem index_counts_returned_documents:
  "index (state_of (run [] (SolrResultsPaginator_init s q dparams mx) ops)) =
     int (length (returned (outcome_of (run [] (SolrResultsPaginator_init s q dparams mx) ops))))
   \<and> (\<exists>k. calls_of (next_method
                (calls_of (run [] (SolrResultsPaginator_init s q dparams mx) ops))
                (state_of (run [] (SolrResultsPaginator_init s q dparams mx) ops))) =
          calls_of (run [] (SolrResultsPaginator_init s q dparams mx) ops) @
          replicate k (Search q (dparams(''start'' \<mapsto>
            PInt (int (length (returned (outcome_of
              (run [] (SolrResultsPaginator_init s q dparams mx) ops)))))))))
   \<and> (\<exists>k. calls_of (len_method
                (calls_of (run [] (SolrResultsPaginator_init s q dparams mx) ops))
                (state_of (run [] (SolrResultsPaginator_init s q dparams mx) ops))) =
          calls_of (run [] (SolrResultsPaginator_init s q dparams mx) ops) @
          replicate k (Search q (dparams(''start'' \<mapsto>
            PInt (int (length (returned (outcome_of
              (run [] (SolrResultsPaginator_init s q dparams mx) ops)))))))))"
proof -
  let ?fresh = "SolrResultsPaginator_init s q dparams mx"
  let ?p = "state_of (run [] ?fresh ops)"
  let ?log = "calls_of (run [] ?fresh ops)"
  have p0: "query ?fresh = q" "default_params ?fresh = dparams" "index ?fresh = 0"
    by (simp_all add: SolrResultsPaginator_init_def)
  have f: "query ?p = q" "default_params ?p = dparams"
      "index ?p = int (length (returned (outcome_of (run [] ?fresh ops))))"
    using run_frame [of "[]" ?fresh ops] p0 by simp_all
  show ?thesis
    using next_method_frame [of ?log ?p] len_method_frame [of ?log ?p] f by simp
qed

text \<open>Three documents in pages of two, with a \<^verbatim>\<open>len()\<close> in between.\<close>

theorem index_counts_returned_documents_witness:
  "index (state_of (run [] (SolrResultsPaginator_init (index_client [10, 20, 30::nat]) ''*:*''
       [''rows'' \<mapsto> PInt 2] None) [Next, Len, Next, Next])) = 3
   \<and> returned (outcome_of (run [] (SolrResultsPaginator_init (index_client [10, 20, 30::nat]) ''*:*''
       [''rows'' \<mapsto> PInt 2] None) [Next, Len, Next, Next])) = [10, 20, 30]"
  using index_counts_returned_documents [where s = "index_client [10, 20, 30::nat]"
     and q = "''*:*''" and dparams = "[''rows'' \<mapsto> PInt 2]" and mx = None
     and ops = "[Next, Len, Next, Next]"]
  by (simp add: eval_paginator)

subsection \<open>Exhaustion\<close>

text \<open>The reported number of hits takes no part in any step.\<close>

lemma init_if_needed_rehit:
  "init_if_needed log (rehit f p) =
     (calls_of (init_if_needed log p), rehit f (state_of (init_if_needed log p)),
      outcome_of (init_if_needed log p))"
proof (cases "solr_search (psolr p) log (query p)
                ((default_params p)(''start'' \<mapsto> PInt (index p)))")
  case (Inl e)
  then show ?thesis
    by (simp add: init_if_needed_cases rehit_def with_hits_def calls_of_def state_of_def
          outcome_of_def)
next
  case (Inr pg)
  then show ?thesis
    by (simp add: init_if_needed_cases rehit_def with_hits_def calls_of_def state_of_def
          outcome_of_def)
qed

lemma next_private_rehit:
  "next_private log (rehit f p) =
     (calls_of (next_private log p), rehit f (state_of (next_private log p)),
      outcome_of (next_private log p))"
proof (cases "item_iter p")
  case None
  then show ?thesis
    by (simp add: next_private_cases rehit_def calls_of_def state_of_def outcome_of_def)
next
  case (Some it)
  show ?thesis
  proof (cases it)
    case (Cons x xs)
    with Some show ?thesis
      by (simp add: next_private_cases rehit_def calls_of_def state_of_def outcome_of_def)
  next
    case Nil
    show ?thesis
    proof (cases "solr_search (psolr p) log (query p)
                    ((default_params p)(''start'' \<mapsto> PInt (index p)))")
      case (Inl e)
      with Some Nil show ?thesis
        by (simp add: next_private_cases rehit_def with_hits_def calls_of_def state_of_def
              outcome_of_def)
    next
      case (Inr pg)
      with Some Nil show ?thesis
        by (cases "docs pg")
           (simp_all add: next_private_cases rehit_def with_hits_def calls_of_def state_of_def
              outcome_of_def)
    qed
  qed
qed

lemma rehit_fields:
  "index (rehit f p) = index p" "max_index (rehit f p) = max_index p"
  "cursor (rehit f p) = cursor p"
  "rehit f (p\<lparr>index := i\<rparr>) = (rehit f p)\<lparr>index := i\<rparr>"
  by (simp_all add: rehit_def)

lemma next_method_rehit:
  "next_method log (rehit f p) =
     (calls_of (next_method log p), rehit f (state_of (next_method log p)),
      outcome_of (next_method log p))"
proof -
  obtain log1 p1 r1 where i: "init_if_needed log p = (log1, p1, r1)"
    by (cases "init_if_needed log p") auto
  obtain log2 p2 r2 where n: "next_private log1 p1 = (log2, p2, r2)"
    by (cases "next_private log1 p1") auto
  have i': "init_if_needed log (rehit f p) = (log1, rehit f p1, r1)"
    using init_if_needed_rehit [of log f p] i
    by (simp add: calls_of_def state_of_def outcome_of_def)
  have n': "next_private log1 (rehit f p1) = (log2, rehit f p2, r2)"
    using next_private_rehit [of log1 f p1] n
    by (simp add: calls_of_def state_of_def outcome_of_def)
  show ?thesis
    using i n i' n'
    by (simp add: next_method_def check_max_index_def rehit_fields calls_of_def state_of_def
          outcome_of_def split: sum.splits option.splits)
qed

lemma next_method_exhaustion:
  assumes "search_never_raises (psolr p)" and "initialized p \<Longrightarrow> item_iter p \<noteq> None"
  shows "(exhausted (state_of (next_method log p)) \<longleftrightarrow>
            exhausted p \<or>
            (calls_of (next_method log p) \<noteq> log \<and>
             (\<exists>pg. page (state_of (next_method log p)) = Some pg \<and> docs pg = [])))
       \<and> (outcome_of (next_method log p) = Inl StopIteration \<longleftrightarrow>
            check_max_index p = Inl StopIteration \<or>
            (calls_of (next_method log p) \<noteq> log \<and>
             (\<exists>pg. page (state_of (next_method log p)) = Some pg \<and> docs pg = [])))"
proof -
  have ok: "\<And>h q ps. \<exists>pg. solr_search (psolr p) h q ps = Inr pg"
    using assms(1) by (simp add: search_never_raises_def)
  show ?thesis
  proof (cases "check_max_index p")
    case (Inl e)
    then have "e = StopIteration"
      by (simp add: check_max_index_def split: option.splits if_splits)
    with Inl show ?thesis
      by (simp add: next_method_def calls_of_def state_of_def outcome_of_def)
  next
    case (Inr u)
    show ?thesis
    proof (cases "initialized p")
      case True
      then obtain it where it: "item_iter p = Some it"
        using assms(2) by auto
      obtain pg where pg: "solr_search (psolr p) log (query p)
           ((default_params p)(''start'' \<mapsto> PInt (index p))) = Inr pg"
        using ok by blast
      show ?thesis
        using Inr True it pg
        by (cases it; cases "docs pg")
           (simp_all add: next_method_def init_if_needed_cases next_private_cases
              calls_of_def state_of_def outcome_of_def)
    next
      case False
      obtain pg where pg: "solr_search (psolr p) log (query p)
           ((default_params p)(''start'' \<mapsto> PInt (index p))) = Inr pg"
        using ok by blast
      obtain pg' where pg': "solr_search (psolr p)
           (log @ [Search (query p) ((default_params p)(''start'' \<mapsto> PInt (index p)))]) (query p)
           ((default_params p)(''start'' \<mapsto> PInt (index p))) = Inr pg'"
        using ok by blast
      show ?thesis
        using Inr False pg pg'
        by (cases "docs pg"; cases "docs pg'")
           (simp_all add: next_method_def init_if_needed_cases next_private_cases
              calls_of_def state_of_def outcome_of_def)
    qed
  qed
qed

text \<open>
  C5. With a search collaborator that never raises, on a paginator whose generator
  exists once it is initialized: \<^verbatim>\<open>next()\<close> leaves \<^verbatim>\<open>exhausted\<close> set exactly when it
  was set before or this call fetched and the page it ended on is empty; it raises
  \<open>StopIteration\<close> exactly when the ceiling cut it or this call fetched and ended on an
  empty page. And the hit counts play no part: with a collaborator that reports any
  other \<^verbatim>\<open>hits\<close> on every page, the same call sends the same searches, answers the
  same and leaves the same paginator, up to the stored \<^verbatim>\<open>hits\<close>.
\<close>

theorem exhaustion_only_on_empty_page:
  assumes "search_never_raises (psolr p)" and "initialized p \<Longrightarrow> item_iter p \<noteq> None"
  shows "(exhausted (state_of (next_method log p)) \<longleftrightarrow>
            exhausted p \<or>
            (calls_of (next_method log p) \<noteq> log \<and>
             (\<exists>pg. page (state_of (next_method log p)) = Some pg \<and> docs pg = [])))
       \<and> (outcome_of (next_method log p) = Inl StopIteration \<longleftrightarrow>
            check_max_index p = Inl StopIteration \<or>
            (calls_of (next_method log p) \<noteq> log \<and>
             (\<exists>pg. page (state_of (next_method log p)) = Some pg \<and> docs pg = [])))
       \<and> next_method log (rehit f p) =
            (calls_of (next_method log p), rehit f (state_of (next_method log p)),
             outcome_of (next_method log p))"
  using next_method_exhaustion [OF assms, of log] next_method_rehit [of log f p] by simp

text \<open>
  Two matching documents in pages of one: two documents are returned, the third call
  fetches an empty third page and stops, also when 1000 hits are reported.
\<close>

theorem exhaustion_only_on_empty_page_witness:
  "returned (outcome_of (run [] (SolrResultsPaginator_init (index_client [10, 20::nat]) ''test''
       [''rows'' \<mapsto> PInt 1] None) [Next, Next])) = [10, 20]
   \<and> \<not> exhausted (state_of (run [] (SolrResultsPaginator_init (index_client [10, 20::nat]) ''test''
       [''rows'' \<mapsto> PInt 1] None) [Next, Next]))
   \<and> outcome_of (next_method
        (calls_of (run [] (SolrResultsPaginator_init (index_client [10, 20::nat]) ''test''
           [''rows'' \<mapsto> PInt 1] None) [Next, Next]))
        (state_of (run [] (SolrResultsPaginator_init (index_client [10, 20::nat]) ''test''
           [''rows'' \<mapsto> PInt 1] None) [Next, Next]))) = Inl StopIteration
   \<and> exhausted (state_of (next_method
        (calls_of (run [] (SolrResultsPaginator_init (index_client [10, 20::nat]) ''test''
           [''rows'' \<mapsto> PInt 1] None) [Next, Next]))
        (state_of (run [] (SolrResultsPaginator_init (index_client [10, 20::nat]) ''test''
           [''rows'' \<mapsto> PInt 1] None) [Next, Next]))))
   \<and> outcome_of (next_method
        (calls_of (run [] (SolrResultsPaginator_init (index_client [10, 20::nat]) ''test''
           [''rows'' \<mapsto> PInt 1] None) [Next, Next]))
        (rehit (\<lambda>pg. 1000) (state_of (run [] (SolrResultsPaginator_init (index_client [10, 20::nat]) ''test''
           [''rows'' \<mapsto> PInt 1] None) [Next, Next])))) = Inl StopIteration"
  using exhaustion_only_on_empty_page [where f = "\<lambda>pg. 1000"
     and log = "calls_of (run [] (SolrResultsPaginator_init (index_client [10, 20::nat]) ''test''
           [''rows'' \<mapsto> PInt 1] None) [Next, Next])"
     and p = "state_of (run [] (SolrResultsPaginator_init (index_client [10, 20::nat]) ''test''
           [''rows'' \<mapsto> PInt 1] None) [Next, Next])"]
  by (simp add: eval_paginator search_never_raises_def)

subsection \<open>Iterating again\<close>

text \<open>
  Against an unchanged index the first \<^verbatim>\<open>next()\<close> answers the same whether or not
  \<^verbatim>\<open>len()\<close> was called before it, and a paginator with a negative ceiling is never
  exhausted.
\<close>

lemma first_advance_of_unchanged_index:
  assumes u: "unchanged_index s" and pre: "before_first_advance s q dparams mx p"
  shows "outcome_of (next_method log p) =
         outcome_of (next_method log' (SolrResultsPaginator_init s q dparams mx))"
proof -
  define ans where "ans = (\<lambda>ps. solr_search s [] q ps)"
  have U: "\<And>h ps. solr_search s h q ps = ans ps"
    using u unfolding unchanged_index_def ans_def by blast
  have f: "psolr p = s" "query p = q" "default_params p = dparams" "max_index p = mx"
    "index p = 0"
    using pre by (simp_all add: before_first_advance_def)
  show ?thesis
  proof (cases "initialized p")
    case False
    then show ?thesis
      using f
      by (simp add: next_method_def check_max_index_def init_if_needed_cases next_private_cases
            SolrResultsPaginator_init_def outcome_of_def U
          split: option.splits sum.splits list.splits)
  next
    case True
    then obtain pg where pg: "ans (dparams(''start'' \<mapsto> PInt 0)) = Inr pg"
        "page p = Some pg" "item_iter p = Some (docs pg)"
      using pre by (auto simp: before_first_advance_def ans_def split: sum.splits)
    show ?thesis
      using True f pg
      by (cases "docs pg")
         (simp_all add: next_method_def check_max_index_def init_if_needed_cases
            next_private_cases SolrResultsPaginator_init_def outcome_of_def U
          split: option.splits)
  qed
qed

lemma len_before_first_advance:
  assumes u: "unchanged_index s" and pre: "before_first_advance s q dparams mx p"
  shows "before_first_advance s q dparams mx (state_of (len_method log p))"
proof -
  have U: "\<And>h ps. solr_search s h q ps = solr_search s [] q ps"
    using u unfolding unchanged_index_def by blast
  have st: "state_of (len_method log p) = state_of (init_if_needed log p)"
    by (simp add: len_method_def state_of_def split: prod.splits sum.splits option.splits)
  show ?thesis
  proof (cases "initialized p")
    case True
    then show ?thesis using pre st by (simp add: init_if_needed_cases state_of_def)
  next
    case False
    then show ?thesis
      using pre st U [of log "dparams(''start'' \<mapsto> PInt 0)"]
      by (auto simp: init_if_needed_cases state_of_def before_first_advance_def
            split: sum.splits)
  qed
qed

lemma run_first_advance:
  assumes u: "unchanged_index s" and pre: "before_first_advance s q dparams mx p"
  shows "case first_advance (outcome_of (run log p ops)) of
           None \<Rightarrow> \<not> exhausted (state_of (run log p ops))
         | Some r \<Rightarrow> r = outcome_of (next_method log' (SolrResultsPaginator_init s q dparams mx))"
  using pre
proof (induction ops arbitrary: log p)
  case Nil
  then show ?case
    by (simp add: outcome_of_def state_of_def before_first_advance_def)
next
  case (Cons x ops)
  show ?case
  proof (cases x)
    case Next
    obtain log1 p1 r where s1: "next_method log p = (log1, p1, r)"
      by (cases "next_method log p") auto
    obtain log2 p2 rs where s2: "run log1 p1 ops = (log2, p2, rs)"
      by (cases "run log1 p1 ops") auto
    show ?thesis
      using first_advance_of_unchanged_index [OF u Cons.prems, of log log'] Next s1 s2
      by (simp add: outcome_of_def)
  next
    case Len
    obtain log1 p1 r where s1: "len_method log p = (log1, p1, r)"
      by (cases "len_method log p") auto
    obtain log2 p2 rs where s2: "run log1 p1 ops = (log2, p2, rs)"
      by (cases "run log1 p1 ops") auto
    have "before_first_advance s q dparams mx p1"
      using len_before_first_advance [OF u Cons.prems, of log] s1 by (simp add: state_of_def)
    from Cons.IH [OF this, of log1] show ?thesis
      using Len s1 s2 by (simp add: outcome_of_def state_of_def split: option.splits)
  qed
qed

lemma run_below_ceiling:
  assumes "max_index p = Some m" and "m < index p" and "\<not> exhausted p"
  shows "\<not> exhausted (state_of (run log p ops))"
  using assms
proof (induction ops arbitrary: log p)
  case Nil
  then show ?case by (simp add: state_of_def)
next
  case (Cons x ops)
  show ?case
  proof (cases x)
    case Next
    have "next_method log p = (log, p, Inl StopIteration)"
      using Cons.prems by (simp add: next_method_def check_max_index_def)
    then show ?thesis
      using Cons.IH [OF Cons.prems, of log] Next
      by (cases "run log p ops") (simp add: state_of_def)
  next
    case Len
    obtain log1 p1 r where s1: "len_method log p = (log1, p1, r)"
      by (cases "len_method log p") auto
    have "max_index p1 = Some m" "m < index p1" "\<not> exhausted p1"
      using len_method_frame [of log p] s1 Cons.prems by (simp_all add: state_of_def)
    from Cons.IH [OF this, of log1] show ?thesis
      using Len s1 by (cases "run log1 p1 ops") (simp add: state_of_def)
  qed
qed

lemma first_advance_without_ceiling:
  assumes "mx = None \<or> (\<exists>m. mx = Some m \<and> 0 \<le> m)"
  shows "outcome_of (next_method log (SolrResultsPaginator_init s q dparams mx)) =
         outcome_of (next_method log (SolrResultsPaginator_init s q dparams None))"
  using assms
  by (auto simp: next_method_def check_max_index_def init_if_needed_cases next_private_cases
        SolrResultsPaginator_init_def outcome_of_def
      split: sum.splits list.splits)

lemma exhausted_first_advance:
  assumes u: "unchanged_index s"
    and e: "exhausted (state_of (run [] (SolrResultsPaginator_init s q dparams mx) ops))"
  shows "first_advance (outcome_of (run [] (SolrResultsPaginator_init s q dparams mx) ops)) =
         Some (outcome_of (next_method log (SolrResultsPaginator_init s q dparams None)))"
proof -
  let ?fresh = "SolrResultsPaginator_init s q dparams mx"
  have pre: "before_first_advance s q dparams mx ?fresh"
    by (simp add: before_first_advance_def SolrResultsPaginator_init_def)
  have c: "mx = None \<or> (\<exists>m. mx = Some m \<and> 0 \<le> m)"
  proof (rule ccontr)
    assume "\<not> ?thesis"
    then obtain m where "mx = Some m" "m < 0" by (cases mx) auto
    then have "\<not> exhausted (state_of (run [] ?fresh ops))"
      by (intro run_below_ceiling [where m = m]) (simp_all add: SolrResultsPaginator_init_def)
    with e show False by simp
  qed
  from run_first_advance [OF u pre, of "[]" ops log] e
  have "first_advance (outcome_of (run [] ?fresh ops)) = Some (outcome_of (next_method log ?fresh))"
    by (simp split: option.splits)
  then show ?thesis
    using first_advance_without_ceiling [OF c, of log s q dparams] by simp
qed

text \<open>
  C6. Let the object at \<open>self\<close> be a paginator constructed for \<open>s\<close>, \<open>q\<close>, \<open>dparams\<close>
  and used through \<^verbatim>\<open>next()\<close> and \<^verbatim>\<open>len()\<close>, over an unchanged index. If it is
  exhausted, \<^verbatim>\<open>__iter__\<close> returns a reference to a new object (the store grows by it,
  the old object is untouched): a paginator as constructed for the same \<open>s\<close>, \<open>q\<close> and
  \<open>dparams\<close>, with \<^verbatim>\<open>index\<close> 0, and its first \<^verbatim>\<open>next()\<close>, whenever it is made, answers
  what the first \<^verbatim>\<open>next()\<close> of the old one answered. If it is not exhausted,
  \<^verbatim>\<open>__iter__\<close> returns \<open>self\<close> and the store is unchanged.
\<close>

theorem iter_restarts_only_when_exhausted:
  assumes "unchanged_index s"
    and "self < length store"
    and "store ! self = state_of (run [] (SolrResultsPaginator_init s q dparams mx) ops)"
  shows "(exhausted (store ! self) \<longrightarrow>
            snd (iter_method store self) = length store
          \<and> snd (iter_method store self) \<noteq> self
          \<and> fst (iter_method store self) ! self = store ! self
          \<and> fst (iter_method store self) ! snd (iter_method store self) =
              SolrResultsPaginator_init s q dparams None
          \<and> index (fst (iter_method store self) ! snd (iter_method store self)) = 0
          \<and> first_advance (outcome_of (run [] (SolrResultsPaginator_init s q dparams mx) ops)) =
              Some (outcome_of (next_method log
                      (fst (iter_method store self) ! snd (iter_method store self)))))
       \<and> (\<not> exhausted (store ! self) \<longrightarrow> iter_method store self = (store, self))"
proof -
  let ?fresh = "SolrResultsPaginator_init s q dparams mx"
  have f: "psolr (store ! self) = s" "query (store ! self) = q"
      "default_params (store ! self) = dparams"
    using run_frame [of "[]" ?fresh ops] assms(3)
    by (simp_all add: SolrResultsPaginator_init_def)
  show ?thesis
  proof (cases "exhausted (store ! self)")
    case False
    then show ?thesis by (simp add: iter_method_def)
  next
    case True
    then have e: "exhausted (state_of (run [] ?fresh ops))" using assms(3) by simp
    have new: "fst (iter_method store self) ! snd (iter_method store self) =
               SolrResultsPaginator_init s q dparams None"
      using True f by (simp add: iter_method_def)
    show ?thesis
      using True assms(2) new exhausted_first_advance [OF assms(1) e, of log]
      by (simp add: iter_method_def nth_append SolrResultsPaginator_init_def)
  qed
qed

text \<open>
  Two documents in pages of one: after three \<^verbatim>\<open>next()\<close> calls the paginator is
  exhausted and iterating again starts at the first document; after one call it is
  not, and iterating again returns the same object.
\<close>

theorem iter_restarts_only_when_exhausted_witness:
  "exhausted (state_of (run [] (SolrResultsPaginator_init (index_client [10, 20::nat]) ''test''
           [''rows'' \<mapsto> PInt 1] (Some 5)) [Len, Next, Next, Next]))
   \<and> snd (iter_method [state_of (run [] (SolrResultsPaginator_init (index_client [10, 20::nat]) ''test''
           [''rows'' \<mapsto> PInt 1] (Some 5)) [Len, Next, Next, Next])] 0) = 1
   \<and> first_advance (outcome_of (run [] (SolrResultsPaginator_init (index_client [10, 20::nat]) ''test''
           [''rows'' \<mapsto> PInt 1] (Some 5)) [Len, Next, Next, Next])) = Some (Inr 10)
   \<and> outcome_of (next_method [] (fst (iter_method [state_of (run [] (SolrResultsPaginator_init (index_client [10, 20::nat]) ''test''
           [''rows'' \<mapsto> PInt 1] (Some 5)) [Len, Next, Next, Next])] 0) ! snd (iter_method [state_of (run [] (SolrResultsPaginator_init (index_client [10, 20::nat]) ''test''
           [''rows'' \<mapsto> PInt 1] (Some 5)) [Len, Next, Next, Next])] 0))) = Inr 10
   \<and> \<not> exhausted (state_of (run [] (SolrResultsPaginator_init (index_client [10, 20::nat]) ''test''
           [''rows'' \<mapsto> PInt 1] (Some 5)) [Next]))
   \<and> snd (iter_method [state_of (run [] (SolrResultsPaginator_init (index_client [10, 20::nat]) ''test''
           [''rows'' \<mapsto> PInt 1] (Some 5)) [Next])] 0) = 0"
  using iter_restarts_only_when_exhausted [where s = "index_client [10, 20::nat]"
          and q = "''test''" and dparams = "[''rows'' \<mapsto> PInt 1]" and mx = "Some 5"
          and ops = "[Len, Next, Next, Next]" and self = 0 and log = "[]"
          and store = "[state_of (run [] (SolrResultsPaginator_init (index_client [10, 20::nat]) ''test''
           [''rows'' \<mapsto> PInt 1] (Some 5)) [Len, Next, Next, Next])]"]
        iter_restarts_only_when_exhausted [where s = "index_client [10, 20::nat]"
          and q = "''test''" and dparams = "[''rows'' \<mapsto> PInt 1]" and mx = "Some 5"
          and ops = "[Next]" and self = 0 and log = "[]"
          and store = "[state_of (run [] (SolrResultsPaginator_init (index_client [10, 20::nat]) ''test''
           [''rows'' \<mapsto> PInt 1] (Some 5)) [Next])]"]
  by (simp add: eval_paginator unchanged_index_def iter_method_def)

end
